theory Spec2Isabelle
  imports Main "HOL-Library.Word" "HOL-Library.Sublist"
begin

section \<open>JavaScript strings and the regular expressions of the script\<close>

text \<open>
  A JavaScript string is a sequence of UTF-16 code units, and a regular expression without
  the \<open>u\<close> flag matches code unit by code unit. Every character the script names lies in
  the Basic Multilingual Plane, so each is one code unit.
\<close>

type_synonym jschar = "16 word"
type_synonym jsstring = "jschar list"

text \<open>
  Every regular expression of \<open>scripts/fixPunctuation.js\<close> is a disjunction of literal
  character sequences. It is kept as the list of its alternatives, in the order
  of the source, the order in which the backtracking matcher tries them.

  The last rule is written as the ellipsis character U+2026 followed by \<open>{1, 2}\<close>.
  Without the \<open>u\<close> flag a brace that does not open a well-formed quantifier is an
  ordinary pattern character, and \<open>{1, 2}\<close> is not a well-formed quantifier because of
  the blank; so this expression is the literal sequence of seven code units U+2026
  \<open>{\<close> \<open>1\<close> \<open>,\<close> blank \<open>2\<close> \<open>}\<close>.
\<close>

type_synonym regexp = "jsstring list"

text \<open>One attempt to match at the start of the remaining input: the first alternative
  that is a prefix of it.\<close>

fun match_here :: "regexp \<Rightarrow> jsstring \<Rightarrow> jsstring option" where
  "match_here [] s = None"
| "match_here (a # as) s = (if prefix a s then Some a else match_here as s)"

text \<open>\<open>RegExp.prototype.test\<close> of an expression without the \<open>g\<close> flag: is there a match
  starting at some index of the text.\<close>

fun test :: "regexp \<Rightarrow> jsstring \<Rightarrow> bool" where
  "test r [] = (match_here r [] \<noteq> None)"
| "test r (c # cs) = (match_here r (c # cs) \<noteq> None \<or> test r cs)"

text \<open>
  \<open>String.prototype.matchAll\<close> with a global expression: the matches from left to right,
  each with its index; the scan goes on behind the match, one code unit further after an
  empty match.
\<close>

fun matchAll_from :: "regexp \<Rightarrow> nat \<Rightarrow> jsstring \<Rightarrow> (nat \<times> jsstring) list" where
  "matchAll_from r i [] = (case match_here r [] of None \<Rightarrow> [] | Some m \<Rightarrow> [(i, m)])"
| "matchAll_from r i (c # cs) =
     (case match_here r (c # cs) of
        None \<Rightarrow> matchAll_from r (Suc i) cs
      | Some m \<Rightarrow> (i, m) # matchAll_from r (i + max 1 (length m)) (drop (length m - 1) cs))"

definition matchAll :: "regexp \<Rightarrow> jsstring \<Rightarrow> (nat \<times> jsstring) list" where
  "matchAll r text = matchAll_from r 0 text"

text \<open>
  \<open>String.prototype.replace\<close> with a global expression and a replacement string: every
  match of the left-to-right scan is replaced, everything else is copied. (No replacement
  of the script contains a dollar sign, so none is a replacement pattern.)
\<close>

fun replace :: "regexp \<Rightarrow> jsstring \<Rightarrow> jsstring \<Rightarrow> jsstring" where
  "replace r v [] = (case match_here r [] of None \<Rightarrow> [] | Some m \<Rightarrow> v)"
| "replace r v (c # cs) =
     (case match_here r (c # cs) of
        None \<Rightarrow> c # replace r v cs
      | Some m \<Rightarrow>
          v @ (if m = [] then c # replace r v cs else replace r v (drop (length m - 1) cs)))"

text \<open>\<open>String.prototype.split\<close> with a one-character separator.\<close>

fun split :: "jschar \<Rightarrow> jsstring \<Rightarrow> jsstring list" where
  "split sep [] = [[]]"
| "split sep (c # cs) =
     (if c = sep then [] # split sep cs
      else (case split sep cs of [] \<Rightarrow> [[c]] | l # ls \<Rightarrow> (c # l) # ls))"

text \<open>\<open>text[i]\<close>: the code unit at index \<open>i\<close>, \<open>undefined\<close> beyond the end.\<close>

definition char_at :: "jsstring \<Rightarrow> nat \<Rightarrow> jschar option" where
  "char_at text i = (if i < length text then Some (text ! i) else None)"

section \<open>The punctuation table\<close>

definition PUNCTUATION_MAP :: "(regexp \<times> jsstring) list" where
  "PUNCTUATION_MAP =
    [ ([[0xFF0C], [0x3001]], [0x2C]),
      ([[0x3002]], [0x2E]),
      ([[0xFF1F]], [0x3F]),
      ([[0xFF1A]], [0x3A]),
      ([[0xFF1B]], [0x3B]),
      ([[0x2018], [0x2019]], [0x27]),
      ([[0x201C], [0x201D]], [0x22]),
      ([[0xFF08]], [0x28]),
      ([[0xFF09]], [0x29]),
      ([[0x3010]], [0x5B]),
      ([[0x3011]], [0x5D]),
      ([[0x300A]], [0x3C]),
      ([[0x300B]], [0x3E]),
      ([[0x2026, 0x7B, 0x31, 0x2C, 0x20, 0x32, 0x7D]], [0x2E, 0x2E, 0x2E]) ]"

text \<open>The checker pattern: the sources of all rules joined by \<open>|\<close>, without the \<open>g\<close> flag.\<close>

definition CHECKER_PATTERN :: regexp where
  "CHECKER_PATTERN = concat (map fst PUNCTUATION_MAP)"

section \<open>Fixing and locating\<close>

definition fixPunctuation :: "jsstring \<Rightarrow> jsstring" where
  "fixPunctuation content = foldl (\<lambda>result (k, v). replace k v result) content PUNCTUATION_MAP"

definition coordinatesOfChars :: "regexp \<Rightarrow> jsstring \<Rightarrow> (nat \<times> nat \<times> jschar option) list" where
  "coordinatesOfChars pattern text =
     map (\<lambda>(anchor, m).
            let lines = split 0x0A (take (anchor + 1) text);
                lineNumber = length lines;
                colNumber = length (last lines) + 1
            in (lineNumber, colNumber, char_at text anchor))
         (matchAll pattern text)"

section \<open>Iterating over the files\<close>

text \<open>
  The file system as the script sees it: \<open>readFileSync\<close> throws on a path that has no
  file, \<open>writeFileSync\<close> throws where the file cannot be written. An exception ends the
  run in the state reached so far.
\<close>

type_synonym path = string

record filesystem =
  contents :: "path \<rightharpoonup> jsstring"
  readonly :: "path set"

datatype io_error = ReadError path | WriteError path

definition readFileSync :: "filesystem \<Rightarrow> path \<Rightarrow> io_error + jsstring" where
  "readFileSync d p = (case contents d p of None \<Rightarrow> Inl (ReadError p) | Some c \<Rightarrow> Inr c)"

definition writeFileSync :: "filesystem \<Rightarrow> path \<Rightarrow> jsstring \<Rightarrow> io_error + filesystem" where
  "writeFileSync d p c =
     (if p \<in> readonly d then Inl (WriteError p) else Inr (d\<lparr>contents := (contents d)(p \<mapsto> c)\<rparr>))"

text \<open>The lines written to the console, by kind.\<close>

datatype log_line =
    LintingHeader bool
  | FileClean path
  | FileFixed path
  | FileErrored path
  | Pin path nat nat "jschar option"
  | Scanning nat
  | Finding
  | SummaryErrors nat nat
  | NoErrorFound
  | SummaryFixed nat

record run_state =
  disk :: filesystem
  fixedFileCount :: nat
  errFlag :: bool
  errFileCount :: nat
  errCount :: nat
  console :: "log_line list"

text \<open>
  The body of the loop of \<open>iterateFiles\<close> for one path. \<open>resolveAbsPath\<close> joins the path
  to the directory of the script; it is a parameter here. \<open>Inl\<close> is a thrown exception,
  with the state at the throw.
\<close>

definition iteration ::
  "(path \<Rightarrow> path) \<Rightarrow> (jsstring \<Rightarrow> jsstring) \<Rightarrow> bool \<Rightarrow> bool \<Rightarrow> run_state \<Rightarrow> path
     \<Rightarrow> (io_error \<times> run_state) + run_state" where
  "iteration resolveAbsPath processer fix absolute st p =
     (let absPath = (if absolute then p else resolveAbsPath p) in
      case readFileSync (disk st) absPath of
        Inl e \<Rightarrow> Inl (e, st)
      | Inr fileContent \<Rightarrow>
          if \<not> test CHECKER_PATTERN fileContent
          then Inr (st\<lparr>console := console st @ [FileClean p]\<rparr>)
          else if fix then
            (let fixedContent = processer fileContent in
             case writeFileSync (disk st) absPath fixedContent of
               Inl e \<Rightarrow> Inl (e, st)
             | Inr d \<Rightarrow>
                 Inr (st\<lparr>disk := d, fixedFileCount := fixedFileCount st + 1,
                         console := console st @ [FileFixed p]\<rparr>))
          else
            (let coordinates = coordinatesOfChars CHECKER_PATTERN fileContent in
             Inr (st\<lparr>errFlag := True, errFileCount := errFileCount st + 1,
                     errCount := errCount st + length coordinates,
                     console := console st @ FileErrored p #
                       map (\<lambda>(lineNumber, colNumber, char). Pin p lineNumber colNumber char)
                         coordinates\<rparr>)))"

fun for_paths ::
  "(path \<Rightarrow> path) \<Rightarrow> (jsstring \<Rightarrow> jsstring) \<Rightarrow> bool \<Rightarrow> bool \<Rightarrow> run_state \<Rightarrow> path list
     \<Rightarrow> (io_error \<times> run_state) + run_state" where
  "for_paths resolveAbsPath processer fix absolute st [] = Inr st"
| "for_paths resolveAbsPath processer fix absolute st (p # ps) =
     (case iteration resolveAbsPath processer fix absolute st p of
        Inl e \<Rightarrow> Inl e
      | Inr st' \<Rightarrow> for_paths resolveAbsPath processer fix absolute st' ps)"

text \<open>How \<open>iterateFiles\<close> ends when nothing is thrown: it returns, or it calls \<open>exit\<close>.\<close>

datatype completion = Returned | Exited nat

definition iterateFiles ::
  "(path \<Rightarrow> path) \<Rightarrow> filesystem \<Rightarrow> path list \<Rightarrow> (jsstring \<Rightarrow> jsstring) \<Rightarrow> bool \<Rightarrow> bool
     \<Rightarrow> (io_error \<times> run_state) + (completion \<times> run_state)" where
  "iterateFiles resolveAbsPath d paths processer fix absolute =
     (let st0 = \<lparr>disk = d, fixedFileCount = 0, errFlag = False, errFileCount = 0,
                 errCount = 0, console = [LintingHeader fix]\<rparr> in
      case for_paths resolveAbsPath processer fix absolute st0 paths of
        Inl e \<Rightarrow> Inl e
      | Inr st \<Rightarrow>
          (let st1 = st\<lparr>console := console st @ [Scanning (length paths), Finding]\<rparr> in
           if \<not> fix then
             (if errFlag st1
              then Inr (Exited 1,
                        st1\<lparr>console := console st1 @
                          [SummaryErrors (errCount st1) (errFileCount st1)]\<rparr>)
              else Inr (Returned, st1\<lparr>console := console st1 @ [NoErrorFound]\<rparr>))
           else
             (if fixedFileCount st1 = 0
              then Inr (Returned, st1\<lparr>console := console st1 @ [NoErrorFound]\<rparr>)
              else Inr (Returned,
                        st1\<lparr>console := console st1 @ [SummaryFixed (fixedFileCount st1)]\<rparr>))))"

text \<open>
  The status the process ends with: the argument of \<open>exit\<close>, 0 after a normal return,
  1 after an uncaught exception.
\<close>

definition exit_status :: "(io_error \<times> run_state) + (completion \<times> run_state) \<Rightarrow> nat" where
  "exit_status res =
     (case res of Inl e \<Rightarrow> 1 | Inr (Returned, st) \<Rightarrow> 0 | Inr (Exited n, st) \<Rightarrow> n)"

definition final_state :: "(io_error \<times> run_state) + (completion \<times> run_state) \<Rightarrow> run_state" where
  "final_state res = (case res of Inl (e, st) \<Rightarrow> st | Inr (c, st) \<Rightarrow> st)"


section \<open>Auxiliary notions for the proofs\<close>

text \<open>The expression that is a disjunction of single characters.\<close>

definition singles :: "jschar list \<Rightarrow> regexp" where
  "singles cs = map (\<lambda>c. [c]) cs"

text \<open>The sixteen characters that the first thirteen rules replace, and what follows
  the ellipsis character in the last rule.\<close>

definition full_width_chars :: "jschar list" where
  "full_width_chars =
     [0xFF0C, 0x3001, 0x3002, 0xFF1F, 0xFF1A, 0xFF1B, 0x2018, 0x2019,
      0x201C, 0x201D, 0xFF08, 0xFF09, 0x3010, 0x3011, 0x300A, 0x300B]"

definition ellipsis_tail :: jsstring where
  "ellipsis_tail = [0x7B, 0x31, 0x2C, 0x20, 0x32, 0x7D]"

text \<open>The path that one iteration reads and writes.\<close>

definition abs_path :: "(path \<Rightarrow> path) \<Rightarrow> bool \<Rightarrow> path \<Rightarrow> path" where
  "abs_path resolveAbsPath absolute p = (if absolute then p else resolveAbsPath p)"

text \<open>A small file system and run state, for the examples.\<close>

definition example_disk :: filesystem where
  "example_disk =
     \<lparr>contents = [''/docs/a.md'' \<mapsto> [0x61, 0x0A, 0xFF0C], ''/docs/b.md'' \<mapsto> [0x62]],
      readonly = {}\<rparr>"

definition example_resolve :: "path \<Rightarrow> path" where
  "example_resolve p = ''/docs/'' @ p"

definition example_state :: run_state where
  "example_state = \<lparr>disk = example_disk, fixedFileCount = 0, errFlag = False,
     errFileCount = 0, errCount = 0, console = [LintingHeader True]\<rparr>"

section \<open>Properties of the matcher\<close>


lemma split_not_Nil: "split sep s \<noteq> []"
  by (induction s) (auto split: list.splits)

lemma match_here_append:
  "match_here (r1 @ r2) s = (case match_here r1 s of Some m \<Rightarrow> Some m | None \<Rightarrow> match_here r2 s)"
  by (induction r1) auto

lemma match_here_concat_None:
  "match_here (concat rs) s = None \<longleftrightarrow> (\<forall>r \<in> set rs. match_here r s = None)"
  by (induction rs) (auto simp: match_here_append split: option.splits)

lemma test_concat: "test (concat rs) s \<longleftrightarrow> (\<exists>r \<in> set rs. test r s)"
  by (induction s) (auto simp: match_here_concat_None)

lemma replace_no_match: "\<not> test r s \<Longrightarrow> replace r v s = s"
  by (induction s) auto

lemma matchAll_from_no_match: "\<not> test r s \<Longrightarrow> matchAll_from r i s = []"
  by (induction s arbitrary: i) auto

lemma test_iff_matchAll_from: "test r s \<longleftrightarrow> matchAll_from r i s \<noteq> []"
  by (induction s arbitrary: i) (auto split: option.splits)

lemma foldl_replace_no_match:
  "\<forall>(k, v) \<in> set rs. \<not> test k s \<Longrightarrow> foldl (\<lambda>result (k, v). replace k v result) s rs = s"
  by (induction rs) (auto simp: replace_no_match)

lemma set_replace_subset: "set (replace r v s) \<subseteq> set s \<union> set v"
proof (induction r v s rule: replace.induct)
  case (1 r v)
  then show ?case by (auto split: option.splits)
next
  case (2 r v c cs)
  show ?case
  proof (cases "match_here r (c # cs)")
    case None
    with 2 show ?thesis by auto
  next
    case (Some m)
    with 2 show ?thesis by (auto dest: in_set_dropD)
  qed
qed

lemma match_here_singles_Nil: "match_here (singles cs) [] = None"
  by (induction cs) (auto simp: singles_def)

lemma match_here_singles_Cons:
  "match_here (singles cs) (c # s) = (if c \<in> set cs then Some [c] else None)"
  by (induction cs) (auto simp: singles_def)

lemma replace_singles:
  "replace (singles cs) v s = concat (map (\<lambda>c. if c \<in> set cs then v else [c]) s)"
  by (induction s) (auto simp: match_here_singles_Nil match_here_singles_Cons)

lemma test_singles: "test (singles cs) s \<longleftrightarrow> (\<exists>c \<in> set s. c \<in> set cs)"
  by (induction s) (auto simp: match_here_singles_Nil match_here_singles_Cons)

lemma length_matchAll_from_singles:
  "length (matchAll_from (singles cs) i s) = length (filter (\<lambda>c. c \<in> set cs) s)"
  by (induction s arbitrary: i) (auto simp: match_here_singles_Nil match_here_singles_Cons)

lemma mem_replace_singles:
  "x \<notin> set v \<Longrightarrow> x \<in> set (replace (singles cs) v s) \<longleftrightarrow> x \<in> set s \<and> x \<notin> set cs"
  by (auto simp: replace_singles split: if_splits)


lemma match_here_literal:
  "match_here [a] s = (if prefix a s then Some a else None)"
  by simp

lemma prefix_replace_literal:
  assumes "v \<noteq> []" and "set xs \<inter> insert e (set v) = {}" and "prefix xs (replace [e # es] v s)"
  shows "prefix xs s"
  using assms(2,3)
proof (induction xs arbitrary: s)
  case Nil
  then show ?case by simp
next
  case (Cons x xs)
  show ?case
  proof (cases s)
    case Nil
    with Cons.prems show ?thesis by simp
  next
    case (Cons c cs)
    show ?thesis
    proof (cases "prefix (e # es) (c # cs)")
      case True
      with Cons.prems \<open>s = c # cs\<close> assms(1) have "x \<in> set v"
        by (cases v) auto
      with Cons.prems show ?thesis by simp
    next
      case False
      with Cons.prems \<open>s = c # cs\<close> have "x = c" and "prefix xs (replace [e # es] v cs)"
        by (auto split: if_splits)
      moreover from Cons.prems have "set xs \<inter> insert e (set v) = {}" by auto
      ultimately show ?thesis using Cons.IH \<open>s = c # cs\<close> by simp
    qed
  qed
qed

lemma test_literal_skip:
  "e \<notin> set ys \<Longrightarrow> test [e # es] (ys @ s) = test [e # es] s"
  by (induction ys) auto

lemma test_replace_literal:
  assumes "v \<noteq> []" and "e \<notin> set v" and "e \<notin> set es" and "set es \<inter> set v = {}"
  shows "\<not> test [e # es] (replace [e # es] v s)"
proof (induction "length s" arbitrary: s rule: less_induct)
  case less
  show ?case
  proof (cases s)
    case Nil
    then show ?thesis by simp
  next
    case (Cons c cs)
    show ?thesis
    proof (cases "prefix (e # es) (c # cs)")
      case True
      have "length (drop (length es) cs) < length s"
        using Cons by simp
      then have "\<not> test [e # es] (replace [e # es] v (drop (length es) cs))"
        by (rule less)
      with True Cons assms(2) show ?thesis
        by (simp add: test_literal_skip)
    next
      case False
      have ih: "\<not> test [e # es] (replace [e # es] v cs)"
        using less [of cs] Cons by simp
      have "\<not> prefix (e # es) (c # replace [e # es] v cs)"
      proof
        assume p: "prefix (e # es) (c # replace [e # es] v cs)"
        then have "c = e" and "prefix es (replace [e # es] v cs)" by auto
        moreover have "set es \<inter> insert e (set v) = {}"
          using assms(3,4) by auto
        ultimately have "prefix es cs"
          using prefix_replace_literal [OF assms(1)] by blast
        with \<open>c = e\<close> False show False by simp
      qed
      with False Cons ih show ?thesis by auto
    qed
  qed
qed

lemma match_here_singles_literal:
  "match_here (singles fs @ [a]) (c # cs) =
     (if c \<in> set fs then Some [c] else if prefix a (c # cs) then Some a else None)"
  by (simp add: match_here_append match_here_singles_Cons)

lemma match_here_singles_literal_Nil:
  "match_here (singles fs @ [a]) [] = (if a = [] then Some a else None)"
  by (simp add: match_here_append match_here_singles_Nil)

lemma filter_drop_prefix:
  assumes "prefix es cs" and "set es \<inter> set fs = {}"
  shows "filter (\<lambda>c. c \<in> set fs) (drop (length es) cs) = filter (\<lambda>c. c \<in> set fs) cs"
proof -
  from assms(1) obtain r where "cs = es @ r" by (auto simp: prefix_def)
  moreover have "filter (\<lambda>c. c \<in> set fs) es = []"
    using assms(2) by (auto simp: filter_empty_conv)
  ultimately show ?thesis by simp
qed

lemma length_matchAll_from_union:
  assumes "e \<notin> set fs" and "set es \<inter> set fs = {}"
  shows "length (matchAll_from (singles fs @ [e # es]) i s)
           = length (filter (\<lambda>c. c \<in> set fs) s) + length (matchAll_from [e # es] i s)"
proof (induction "length s" arbitrary: s i rule: less_induct)
  case less
  show ?case
  proof (cases s)
    case Nil
    then show ?thesis by (simp add: match_here_singles_literal_Nil)
  next
    case (Cons c cs)
    have ih: "\<And>j. length (matchAll_from (singles fs @ [e # es]) j cs)
           = length (filter (\<lambda>c. c \<in> set fs) cs) + length (matchAll_from [e # es] j cs)"
      using less [of cs] Cons by simp
    show ?thesis
    proof (cases "c \<in> set fs")
      case True
      with assms(1) have "c \<noteq> e" by auto
      with True Cons ih show ?thesis
        by (simp add: match_here_singles_literal)
    next
      case False
      show ?thesis
      proof (cases "prefix (e # es) (c # cs)")
        case True
        then have p: "prefix es cs" by simp
        have "length (drop (length es) cs) < length s" using Cons by simp
        from less [OF this] True False Cons show ?thesis
          by (simp add: match_here_singles_literal filter_drop_prefix [OF p assms(2)])
      next
        case nomatch: False
        with False Cons ih show ?thesis
          by (auto simp: match_here_singles_literal)
      qed
    qed
  qed
qed

lemma length_filter_concat:
  "distinct (concat css) \<Longrightarrow>
   length (filter (\<lambda>c. c \<in> set (concat css)) s) = (\<Sum>cs\<leftarrow>css. length (filter (\<lambda>c. c \<in> set cs) s))"
proof (induction css)
  case Nil
  then show ?case by simp
next
  case (Cons cs css)
  then have d: "set cs \<inter> set (concat css) = {}" and "distinct (concat css)" by auto
  have "length (filter (\<lambda>c. c \<in> set cs \<or> c \<in> set (concat css)) s)
        = length (filter (\<lambda>c. c \<in> set cs) s) + length (filter (\<lambda>c. c \<in> set (concat css)) s)"
    using d by (induction s) auto
  with Cons show ?case by simp
qed

section \<open>The table, evaluated\<close>

lemma CHECKER_PATTERN_eq:
  "CHECKER_PATTERN =
    [[0xFF0C], [0x3001], [0x3002], [0xFF1F], [0xFF1A], [0xFF1B], [0x2018], [0x2019],
     [0x201C], [0x201D], [0xFF08], [0xFF09], [0x3010], [0x3011], [0x300A], [0x300B],
     [0x2026, 0x7B, 0x31, 0x2C, 0x20, 0x32, 0x7D]]"
  by (simp add: CHECKER_PATTERN_def PUNCTUATION_MAP_def)

text \<open>
  C8. Fixing U+4F60 U+597D U+FF0C U+4E16 U+754C U+3002 gives the same text with the
  full-width comma replaced by \<open>,\<close> and the ideographic full stop by \<open>.\<close>; the four
  ideographs are unchanged.
\<close>

theorem fixPunctuation_hello_world:
  "fixPunctuation [0x4F60, 0x597D, 0xFF0C, 0x4E16, 0x754C, 0x3002]
     = [0x4F60, 0x597D, 0x2C, 0x4E16, 0x754C, 0x2E]"
  by (simp add: fixPunctuation_def PUNCTUATION_MAP_def)

section \<open>Properties of the table\<close>

lemma CHECKER_PATTERN_singles:
  "CHECKER_PATTERN = singles full_width_chars @ [0x2026 # ellipsis_tail]"
  by (simp add: CHECKER_PATTERN_def PUNCTUATION_MAP_def singles_def full_width_chars_def
      ellipsis_tail_def)

lemma fixPunctuation_unfold:
  "fixPunctuation t =
   replace [0x2026 # ellipsis_tail] [0x2E, 0x2E, 0x2E]
    (replace (singles [0x300B]) [0x3E]
    (replace (singles [0x300A]) [0x3C]
    (replace (singles [0x3011]) [0x5D]
    (replace (singles [0x3010]) [0x5B]
    (replace (singles [0xFF09]) [0x29]
    (replace (singles [0xFF08]) [0x28]
    (replace (singles [0x201C, 0x201D]) [0x22]
    (replace (singles [0x2018, 0x2019]) [0x27]
    (replace (singles [0xFF1B]) [0x3B]
    (replace (singles [0xFF1A]) [0x3A]
    (replace (singles [0xFF1F]) [0x3F]
    (replace (singles [0x3002]) [0x2E]
    (replace (singles [0xFF0C, 0x3001]) [0x2C] t)))))))))))))"
  by (simp add: fixPunctuation_def PUNCTUATION_MAP_def singles_def ellipsis_tail_def)

lemma not_mem_replace:
  "x \<notin> set v \<Longrightarrow> x \<notin> set s \<Longrightarrow> x \<notin> set (replace r v s)"
  using set_replace_subset [of r v s] by auto

lemma full_width_removed:
  assumes "x \<in> set full_width_chars"
  shows "x \<notin> set (fixPunctuation t)"
  unfolding fixPunctuation_unfold
  apply (rule not_mem_replace)
  using assms apply (auto simp: full_width_chars_def)[1]
  using assms apply (auto simp: full_width_chars_def mem_replace_singles)
  done

lemma test_ellipsis_fixed:
  "\<not> test [0x2026 # ellipsis_tail] (fixPunctuation t)"
  unfolding fixPunctuation_unfold
  by (rule test_replace_literal) (simp_all add: ellipsis_tail_def)

lemma test_union: "test (r1 @ r2) s \<longleftrightarrow> test r1 s \<or> test r2 s"
  using test_concat [of "[r1, r2]" s] by simp

lemma test_CHECKER_fixed: "\<not> test CHECKER_PATTERN (fixPunctuation t)"
  using full_width_removed [of _ t] test_ellipsis_fixed [of t]
  by (auto simp: CHECKER_PATTERN_singles test_union test_singles)

lemma test_CHECKER_iff:
  "test CHECKER_PATTERN s \<longleftrightarrow> (\<exists>(k, v) \<in> set PUNCTUATION_MAP. test k s)"
  by (force simp: CHECKER_PATTERN_def test_concat)

lemma fixPunctuation_no_match:
  "\<not> test CHECKER_PATTERN s \<Longrightarrow> fixPunctuation s = s"
  unfolding fixPunctuation_def
  by (rule foldl_replace_no_match) (auto simp: test_CHECKER_iff)

text \<open>
  C3. Applying the fixes twice gives the same text as applying them once: after one
  application no rule of the table matches anywhere in the result, so the second
  application changes nothing.
\<close>

theorem fixPunctuation_idempotent:
  "fixPunctuation (fixPunctuation text) = fixPunctuation text
   \<and> \<not> test CHECKER_PATTERN (fixPunctuation text)"
  by (simp add: fixPunctuation_no_match test_CHECKER_fixed)

section \<open>The claims about fixing and locating\<close>

lemma coordinates_no_match:
  "\<not> test r s \<Longrightarrow> coordinatesOfChars r s = []"
  by (simp add: coordinatesOfChars_def matchAll_def matchAll_from_no_match)

text \<open>
  C4. On a text in which no rule's expression matches (the empty text is one), the
  existence test is false, the fixes return the text unchanged, and no coordinate is
  reported.
\<close>

theorem clean_text_untouched:
  assumes "\<forall>(k, v) \<in> set PUNCTUATION_MAP. \<not> test k text"
  shows "\<not> test CHECKER_PATTERN text \<and> fixPunctuation text = text
         \<and> coordinatesOfChars CHECKER_PATTERN text = []"
proof -
  from assms have "\<not> test CHECKER_PATTERN text"
    by (auto simp: test_CHECKER_iff)
  then show ?thesis
    by (simp add: fixPunctuation_no_match coordinates_no_match)
qed

theorem clean_text_untouched_witness:
  "\<not> (\<exists>(k, v) \<in> set PUNCTUATION_MAP. test k [0x48, 0x69, 0x0A])
   \<and> \<not> test CHECKER_PATTERN [0x48, 0x69, 0x0A]
   \<and> fixPunctuation [0x48, 0x69, 0x0A] = [0x48, 0x69, 0x0A]
   \<and> coordinatesOfChars CHECKER_PATTERN [0x48, 0x69, 0x0A] = []"
proof -
  have h: "\<forall>(k, v) \<in> set PUNCTUATION_MAP. \<not> test k [0x48, 0x69, 0x0A]"
    by (simp add: PUNCTUATION_MAP_def)
  from clean_text_untouched [OF h] h show ?thesis by blast
qed

lemma full_width_chars_concat:
  "full_width_chars =
     concat [[0xFF0C, 0x3001], [0x3002], [0xFF1F], [0xFF1A], [0xFF1B], [0x2018, 0x2019],
             [0x201C, 0x201D], [0xFF08], [0xFF09], [0x3010], [0x3011], [0x300A], [0x300B]]"
  by (simp add: full_width_chars_def)

lemma PUNCTUATION_MAP_singles:
  "PUNCTUATION_MAP =
    [ (singles [0xFF0C, 0x3001], [0x2C]),
      (singles [0x3002], [0x2E]),
      (singles [0xFF1F], [0x3F]),
      (singles [0xFF1A], [0x3A]),
      (singles [0xFF1B], [0x3B]),
      (singles [0x2018, 0x2019], [0x27]),
      (singles [0x201C, 0x201D], [0x22]),
      (singles [0xFF08], [0x28]),
      (singles [0xFF09], [0x29]),
      (singles [0x3010], [0x5B]),
      (singles [0x3011], [0x5D]),
      (singles [0x300A], [0x3C]),
      (singles [0x300B], [0x3E]),
      ([0x2026 # ellipsis_tail], [0x2E, 0x2E, 0x2E]) ]"
  by (simp add: PUNCTUATION_MAP_def singles_def ellipsis_tail_def)

lemma count_full_width:
  "length (filter (\<lambda>c. c \<in> set full_width_chars) s) =
     (\<Sum>cs\<leftarrow>[[0xFF0C, 0x3001], [0x3002], [0xFF1F], [0xFF1A], [0xFF1B], [0x2018, 0x2019],
             [0x201C, 0x201D], [0xFF08], [0xFF09], [0x3010], [0x3011], [0x300A], [0x300B]].
        length (filter (\<lambda>c. c \<in> set cs) s))"
  unfolding full_width_chars_concat
  by (rule length_filter_concat) simp

text \<open>
  C5. The claim is that the number of coordinates reported with the combined checker
  pattern equals the number of matched characters found by scanning with each rule's own
  expression, summed over the rules. On the text U+2026 \<open>{1, 2}\<close> the last rule matches
  once, a match of seven characters, and one coordinate is reported: one is not seven.
\<close>

theorem coordinates_count_characters_counterexample:
  "length (coordinatesOfChars CHECKER_PATTERN [0x2026, 0x7B, 0x31, 0x2C, 0x20, 0x32, 0x7D])
     \<noteq> (\<Sum>(k, v)\<leftarrow>PUNCTUATION_MAP.
           \<Sum>(anchor, m)\<leftarrow>matchAll k [0x2026, 0x7B, 0x31, 0x2C, 0x20, 0x32, 0x7D]. length m)"
  by (simp add: coordinatesOfChars_def matchAll_def CHECKER_PATTERN_eq PUNCTUATION_MAP_def)

text \<open>
  C5, as amended. The number of coordinates reported with the combined checker pattern
  equals the sum, over the rules of the table, of the number of matches that the rule's
  own expression finds in the same text: one coordinate for each match, whatever the
  number of characters the match spans.
\<close>

theorem coordinates_count:
  "length (coordinatesOfChars CHECKER_PATTERN text)
     = (\<Sum>(k, v)\<leftarrow>PUNCTUATION_MAP. length (matchAll k text))"
proof -
  have "length (coordinatesOfChars CHECKER_PATTERN text)
          = length (filter (\<lambda>c. c \<in> set full_width_chars) text)
            + length (matchAll_from [0x2026 # ellipsis_tail] 0 text)"
    unfolding coordinatesOfChars_def matchAll_def CHECKER_PATTERN_singles length_map
    by (rule length_matchAll_from_union) (simp_all add: full_width_chars_def ellipsis_tail_def)
  also have "\<dots> = (\<Sum>(k, v)\<leftarrow>PUNCTUATION_MAP. length (matchAll k text))"
    unfolding count_full_width PUNCTUATION_MAP_singles
    by (simp add: matchAll_def length_matchAll_from_singles)
  finally show ?thesis .
qed

text \<open>
  C1. The claim is that a match at the first character of the text is reported at line 1,
  column 1, and a match right after a newline at column 1 of its line. The function takes
  the text up to and including the matched character, and then adds one to the length of
  the last line of that: the full-width comma that is the whole text is reported at
  column 2, and so is the one that follows \<open>a\<close> and a newline.
\<close>

theorem coordinatesOfChars_first_column:
  "coordinatesOfChars CHECKER_PATTERN [0xFF0C] = [(1, 2, Some 0xFF0C)]
   \<and> coordinatesOfChars CHECKER_PATTERN [0x61, 0x0A, 0xFF0C] = [(2, 2, Some 0xFF0C)]"
  by (simp add: coordinatesOfChars_def matchAll_def CHECKER_PATTERN_eq char_at_def)

text \<open>
  C2. The claim is that fixing \<open>He said\<close>, a blank, U+201C \<open>hi\<close> U+201D and U+2026 gives
  \<open>He said 'hi'...\<close>. The result is another text.
\<close>

theorem fixPunctuation_quotes_ellipsis_counterexample:
  "fixPunctuation [0x48, 0x65, 0x20, 0x73, 0x61, 0x69, 0x64, 0x20, 0x201C, 0x68, 0x69, 0x201D, 0x2026]
     \<noteq> [0x48, 0x65, 0x20, 0x73, 0x61, 0x69, 0x64, 0x20, 0x27, 0x68, 0x69, 0x27, 0x2E, 0x2E, 0x2E]"
  by (simp add: fixPunctuation_def PUNCTUATION_MAP_def)

text \<open>
  C2, as amended. The result of fixing that text begins with \<open>He said "hi"\<close>: each of
  the two curly double quotes is replaced by the ASCII double quote, and the characters
  before the ellipsis character are otherwise unchanged.
\<close>

theorem fixPunctuation_quotes_prefix:
  "take 12 (fixPunctuation
      [0x48, 0x65, 0x20, 0x73, 0x61, 0x69, 0x64, 0x20, 0x201C, 0x68, 0x69, 0x201D, 0x2026])
     = [0x48, 0x65, 0x20, 0x73, 0x61, 0x69, 0x64, 0x20, 0x22, 0x68, 0x69, 0x22]"
  by (simp add: fixPunctuation_def PUNCTUATION_MAP_def)

lemma match_here_Some: "match_here r s = Some m \<Longrightarrow> m \<in> set r \<and> prefix m s"
  by (induction r) (auto split: if_splits)

lemma matchAll_from_sound:
  assumes "[] \<notin> set r"
  shows "(j, m) \<in> set (matchAll_from r i s) \<Longrightarrow>
           i \<le> j \<and> j < i + length s \<and> m \<in> set r \<and> prefix m (drop (j - i) s)"
proof (induction "length s" arbitrary: s i rule: less_induct)
  case less
  show ?case
  proof (cases s)
    case Nil
    with less.prems assms show ?thesis
      by (auto split: option.splits dest: match_here_Some [OF sym])
  next
    case (Cons c cs)
    show ?thesis
    proof (cases "match_here r (c # cs)")
      case None
      with less.prems Cons have "(j, m) \<in> set (matchAll_from r (Suc i) cs)" by simp
      with less.hyps [of cs "Suc i"] Cons
      have "Suc i \<le> j \<and> j < Suc i + length cs \<and> m \<in> set r \<and> prefix m (drop (j - Suc i) cs)"
        by simp
      moreover then have "drop (j - i) (c # cs) = drop (j - Suc i) cs"
        by (simp add: drop_Cons' )
      ultimately show ?thesis using Cons by auto
    next
      case (Some m0)
      then have m0: "m0 \<in> set r" "prefix m0 (c # cs)"
        by (auto dest: match_here_Some)
      with assms have ne: "m0 \<noteq> []" by auto
      then have mx: "max (Suc 0) (length m0) = length m0" by (cases m0) auto
      from less.prems Cons Some
      consider "(j, m) = (i, m0)"
        | "(j, m) \<in> set (matchAll_from r (i + length m0) (drop (length m0 - 1) cs))"
        by (auto simp: mx)
      then show ?thesis
      proof cases
        case 1
        with m0 Cons show ?thesis by simp
      next
        case 2
        have "length (drop (length m0 - 1) cs) < length s" using Cons by simp
        from less.hyps [OF this 2]
        have a: "i + length m0 \<le> j" "j < i + length m0 + length (drop (length m0 - 1) cs)"
          "m \<in> set r" "prefix m (drop (j - (i + length m0)) (drop (length m0 - 1) cs))"
          by auto
        from m0(2) have "length m0 \<le> Suc (length cs)"
          by (auto dest: prefix_length_le)
        with a(2) ne have "j < i + length s" using Cons by (cases m0) auto
        moreover have "drop (j - (i + length m0)) (drop (length m0 - 1) cs) = drop (j - i) (c # cs)"
          using a(1) ne by (cases m0) (auto simp: drop_Cons' )
        ultimately show ?thesis using a Cons by auto
      qed
    qed
  qed
qed

lemma Nil_notin_CHECKER: "[] \<notin> set CHECKER_PATTERN"
  by (simp add: CHECKER_PATTERN_eq)

lemma prefix_drop_nth:
  assumes "prefix m (drop i s)" and "m \<noteq> []"
  shows "i < length s \<and> s ! i = hd m \<and> take (length m) (drop i s) = m"
proof -
  from assms obtain r where r: "drop i s = m @ r" by (auto simp: prefix_def)
  with assms(2) have "drop i s \<noteq> []" by auto
  then have i: "i < length s" by simp
  then have "s ! i = hd (drop i s)" by (simp add: hd_drop_conv_nth)
  with r assms(2) i show ?thesis by simp
qed

text \<open>
  C9. Each coordinate belongs to one match of the scan, in order, and its character is
  the one code unit of the text at the index where that match starts, the first
  character of the match. The match of the last rule spans seven code units and gives one
  coordinate, with the ellipsis character.
\<close>

theorem coordinate_char_is_first_of_match:
  "list_all2 (\<lambda>(lineNumber, colNumber, char) (anchor, m).
       anchor < length text \<and> char = Some (text ! anchor) \<and> m \<noteq> []
       \<and> take (length m) (drop anchor text) = m)
     (coordinatesOfChars CHECKER_PATTERN text) (matchAll CHECKER_PATTERN text)
   \<and> matchAll CHECKER_PATTERN (0x2026 # ellipsis_tail) = [(0, 0x2026 # ellipsis_tail)]
   \<and> coordinatesOfChars CHECKER_PATTERN (0x2026 # ellipsis_tail) = [(1, 2, Some 0x2026)]"
proof -
  have "anchor < length text \<and> m \<noteq> [] \<and> take (length m) (drop anchor text) = m"
    if h: "(anchor, m) \<in> set (matchAll CHECKER_PATTERN text)" for anchor m
  proof -
    have "m \<in> set CHECKER_PATTERN" and "prefix m (drop anchor text)"
      using h matchAll_from_sound [OF Nil_notin_CHECKER, of anchor m 0 "text"]
      by (simp_all add: matchAll_def)
    with Nil_notin_CHECKER have "m \<noteq> []" by auto
    with \<open>prefix m (drop anchor text)\<close> show ?thesis
      using prefix_drop_nth by blast
  qed
  then have "list_all2 (\<lambda>(lineNumber, colNumber, char) (anchor, m).
       anchor < length text \<and> char = Some (text ! anchor) \<and> m \<noteq> []
       \<and> take (length m) (drop anchor text) = m)
     (coordinatesOfChars CHECKER_PATTERN text) (matchAll CHECKER_PATTERN text)"
    by (auto simp: coordinatesOfChars_def list_all2_map1 list_all2_same char_at_def Let_def)
  moreover have "matchAll CHECKER_PATTERN (0x2026 # ellipsis_tail) = [(0, 0x2026 # ellipsis_tail)]"
    by (simp add: matchAll_def CHECKER_PATTERN_eq ellipsis_tail_def)
  moreover have "coordinatesOfChars CHECKER_PATTERN (0x2026 # ellipsis_tail) = [(1, 2, Some 0x2026)]"
    by (simp add: coordinatesOfChars_def matchAll_def CHECKER_PATTERN_eq ellipsis_tail_def char_at_def)
  ultimately show ?thesis by blast
qed

section \<open>The column of a coordinate\<close>

text \<open>The line number counts the newlines before the match; the column is the number of
  characters between the start of the line and the match, plus two.\<close>

lemma split_snoc:
  "x \<noteq> sep \<Longrightarrow>
   split sep (xs @ [x]) = butlast (split sep xs) @ [last (split sep xs) @ [x]]"
proof (induction xs)
  case Nil
  then show ?case by simp
next
  case (Cons c cs)
  then show ?case
    using split_not_Nil [of sep cs] split_not_Nil [of sep "cs @ [x]"]
    by (cases "split sep cs") (auto split: list.splits)
qed

lemma hd_CHECKER_not_newline: "m \<in> set CHECKER_PATTERN \<Longrightarrow> hd m \<noteq> 0x0A"
  by (auto simp: CHECKER_PATTERN_eq)

lemma coordinatesOfChars_columns:
  "coordinatesOfChars CHECKER_PATTERN text =
     map (\<lambda>(anchor, m).
            (length (split 0x0A (take anchor text)),
             length (last (split 0x0A (take anchor text))) + 2,
             Some (text ! anchor)))
         (matchAll CHECKER_PATTERN text)"
proof -
  have "(let lines = split 0x0A (take (anchor + 1) text)
         in (length lines, length (last lines) + 1, char_at text anchor))
        = (length (split 0x0A (take anchor text)),
           length (last (split 0x0A (take anchor text))) + 2,
           Some (text ! anchor))"
    if h: "(anchor, m) \<in> set (matchAll CHECKER_PATTERN text)" for anchor m
  proof -
    have m: "m \<in> set CHECKER_PATTERN" and p: "prefix m (drop anchor text)"
      using h matchAll_from_sound [OF Nil_notin_CHECKER, of anchor m 0 "text"]
      by (simp_all add: matchAll_def)
    with Nil_notin_CHECKER have "m \<noteq> []" by auto
    with p have i: "anchor < length text" and c: "text ! anchor = hd m"
      using prefix_drop_nth by blast+
    from c m have nl: "text ! anchor \<noteq> 0x0A" by (simp add: hd_CHECKER_not_newline)
    from i have "take (anchor + 1) text = take anchor text @ [text ! anchor]"
      by (simp add: take_Suc_conv_app_nth)
    with split_snoc [OF nl, of "take anchor text"] i show ?thesis
      using split_not_Nil [of "0x0A" "take anchor text"]
      by (simp add: char_at_def Let_def)
  qed
  then show ?thesis
    unfolding coordinatesOfChars_def by (intro map_cong) auto
qed

section \<open>The claims about a run\<close>



lemma test_iff_coordinates: "test r s \<longleftrightarrow> coordinatesOfChars r s \<noteq> []"
  using test_iff_matchAll_from [of r s 0]
  by (simp add: coordinatesOfChars_def matchAll_def)

lemma iteration_thrown:
  "iteration r proc fix a st p = Inl (e, st') \<Longrightarrow> st' = st"
  by (auto simp: iteration_def Let_def readFileSync_def writeFileSync_def
      split: option.splits if_splits)

lemma iteration_detect_disk:
  "iteration r proc False a st p = Inr st' \<Longrightarrow> disk st' = disk st"
  by (auto simp: iteration_def Let_def readFileSync_def split: option.splits if_splits)

lemma for_paths_detect_disk:
  "for_paths r proc False a st ps = Inr st' \<or> for_paths r proc False a st ps = Inl (e, st')
     \<Longrightarrow> disk st' = disk st"
proof (induction ps arbitrary: st)
  case Nil
  then show ?case by simp
next
  case (Cons p ps)
  show ?case
  proof (cases "iteration r proc False a st p")
    case (Inl x)
    with Cons.prems iteration_thrown [of r proc False a st p e st'] show ?thesis
      by auto
  next
    case (Inr st1)
    with Cons.prems have "disk st' = disk st1"
      by (intro Cons.IH) simp
    with Inr iteration_detect_disk show ?thesis by metis
  qed
qed

lemma iteration_detect_shape:
  assumes "iteration r proc False a st p = Inr st'"
  shows "(errFileCount st' = errFileCount st \<and> errCount st' = errCount st
            \<and> errFlag st' = errFlag st)
         \<or> (\<exists>c. test CHECKER_PATTERN c \<and> errFileCount st' = Suc (errFileCount st)
               \<and> errCount st' = errCount st + length (coordinatesOfChars CHECKER_PATTERN c)
               \<and> errFlag st')"
  using assms
  by (auto simp: iteration_def Let_def readFileSync_def split: option.splits if_splits)

lemma iteration_detect_counts:
  assumes "iteration r proc False a st p = Inr st'"
    and "errFileCount st \<le> errCount st" and "errFlag st \<longleftrightarrow> 0 < errCount st"
  shows "errFileCount st' \<le> errCount st' \<and> (errFlag st' \<longleftrightarrow> 0 < errCount st')"
proof -
  from iteration_detect_shape [OF assms(1)]
  consider "errFileCount st' = errFileCount st" "errCount st' = errCount st"
      "errFlag st' = errFlag st"
    | c where "test CHECKER_PATTERN c" "errFileCount st' = Suc (errFileCount st)"
      "errCount st' = errCount st + length (coordinatesOfChars CHECKER_PATTERN c)" "errFlag st'"
    by blast
  then show ?thesis
  proof cases
    case 1
    with assms(2,3) show ?thesis by simp
  next
    case 2
    from 2(1) have "coordinatesOfChars CHECKER_PATTERN c \<noteq> []"
      using test_iff_coordinates [of CHECKER_PATTERN c] by simp
    then have n: "1 \<le> length (coordinatesOfChars CHECKER_PATTERN c)"
      by (cases "coordinatesOfChars CHECKER_PATTERN c") simp_all
    from n 2(2,3) assms(2) have "errFileCount st' \<le> errCount st'" by linarith
    moreover from n 2(3) have "0 < errCount st'" by linarith
    ultimately show ?thesis using 2(4) by simp
  qed
qed

lemma for_paths_detect_counts:
  assumes "for_paths r proc False a st ps = Inr st' \<or> for_paths r proc False a st ps = Inl (e, st')"
    and "errFileCount st \<le> errCount st" and "errFlag st \<longleftrightarrow> 0 < errCount st"
  shows "errFileCount st' \<le> errCount st' \<and> (errFlag st' \<longleftrightarrow> 0 < errCount st')"
  using assms
proof (induction ps arbitrary: st)
  case Nil
  then show ?case by simp
next
  case (Cons p ps)
  show ?case
  proof (cases "iteration r proc False a st p")
    case (Inl x)
    with Cons.prems(1) iteration_thrown [of r proc False a st p e st'] have "st' = st"
      by auto
    with Cons.prems(2,3) show ?thesis by simp
  next
    case (Inr st1)
    with Cons.prems(1)
    have 2: "for_paths r proc False a st1 ps = Inr st' \<or> for_paths r proc False a st1 ps = Inl (e, st')"
      by simp
    from iteration_detect_counts [OF Inr Cons.prems(2,3)] Cons.IH [OF 2] show ?thesis by simp
  qed
qed





lemma test_iff_changed: "test CHECKER_PATTERN c \<longleftrightarrow> fixPunctuation c \<noteq> c"
proof
  assume "test CHECKER_PATTERN c"
  with test_CHECKER_fixed [of c] show "fixPunctuation c \<noteq> c" by auto
next
  assume "fixPunctuation c \<noteq> c"
  with fixPunctuation_no_match [of c] show "test CHECKER_PATTERN c" by auto
qed

lemma iterateFiles_detect_disk:
  "disk (final_state (iterateFiles r d paths proc False a)) = d"
proof -
  let ?st0 = "\<lparr>disk = d, fixedFileCount = 0, errFlag = False, errFileCount = 0,
                 errCount = 0, console = [LintingHeader False]\<rparr>"
  show ?thesis
  proof (cases "for_paths r proc False a ?st0 paths")
    case (Inl x)
    obtain e st' where x: "x = (e, st')" by (cases x)
    with Inl for_paths_detect_disk [of r proc a ?st0 paths st' e] have "disk st' = d" by simp
    with Inl x show ?thesis by (simp add: iterateFiles_def final_state_def)
  next
    case (Inr st')
    with for_paths_detect_disk [of r proc a ?st0 paths st'] have "disk st' = d" by simp
    with Inr show ?thesis by (simp add: iterateFiles_def final_state_def Let_def)
  qed
qed

text \<open>
  C7. For a file that can be read and written, with content \<open>c\<close>: the iteration in fix
  mode writes \<open>fixPunctuation c\<close>, the whole content fixed in one pass, to that file if
  some rule's expression matches in \<open>c\<close>, and leaves the file system as it is otherwise; the
  fixed content differs from \<open>c\<close> exactly when some rule matches. The iteration in
  detection mode leaves the file system as it is, and so does every run in detection
  mode, also one that ends with an exception.
\<close>

theorem file_rewritten_iff_matched:
  assumes "contents (disk st) (abs_path r absolute p) = Some c"
    and "abs_path r absolute p \<notin> readonly (disk st)"
  shows "(\<exists>st'. iteration r fixPunctuation True absolute st p = Inr st'
            \<and> disk st' =
                (if \<exists>(k, v) \<in> set PUNCTUATION_MAP. test k c
                 then (disk st)\<lparr>contents := (contents (disk st))(abs_path r absolute p \<mapsto> fixPunctuation c)\<rparr>
                 else disk st))
       \<and> ((\<exists>(k, v) \<in> set PUNCTUATION_MAP. test k c) \<longleftrightarrow> fixPunctuation c \<noteq> c)
       \<and> (\<exists>st'. iteration r fixPunctuation False absolute st p = Inr st' \<and> disk st' = disk st)
       \<and> disk (final_state (iterateFiles r' d paths fixPunctuation False absolute')) = d"
proof -
  have a: "\<exists>st'. iteration r fixPunctuation True absolute st p = Inr st'
            \<and> disk st' =
                (if \<exists>(k, v) \<in> set PUNCTUATION_MAP. test k c
                 then (disk st)\<lparr>contents := (contents (disk st))(abs_path r absolute p \<mapsto> fixPunctuation c)\<rparr>
                 else disk st)"
    using assms unfolding test_CHECKER_iff [symmetric]
    by (simp add: iteration_def abs_path_def readFileSync_def writeFileSync_def Let_def)
  have b: "(\<exists>(k, v) \<in> set PUNCTUATION_MAP. test k c) \<longleftrightarrow> fixPunctuation c \<noteq> c"
    unfolding test_CHECKER_iff [symmetric] by (rule test_iff_changed)
  have c: "\<exists>st'. iteration r fixPunctuation False absolute st p = Inr st' \<and> disk st' = disk st"
    using assms(1)
    by (simp add: iteration_def abs_path_def readFileSync_def Let_def)
  show ?thesis
    by (rule conjI [OF a conjI [OF b conjI [OF c iterateFiles_detect_disk]]])
qed

theorem file_rewritten_iff_matched_witness:
  "(\<exists>st'. iteration example_resolve fixPunctuation True False example_state ''a.md'' = Inr st'
       \<and> contents (disk st') ''/docs/a.md'' = Some [0x61, 0x0A, 0x2C]
       \<and> contents (disk st') ''/docs/b.md'' = Some [0x62])
   \<and> (\<exists>st'. iteration example_resolve fixPunctuation True False example_state ''b.md'' = Inr st'
       \<and> disk st' = example_disk)
   \<and> (\<exists>st'. iteration example_resolve fixPunctuation False False example_state ''a.md'' = Inr st'
       \<and> disk st' = example_disk)"
proof -
  have a: "contents (disk example_state) (abs_path example_resolve False ''a.md'')
             = Some [0x61, 0x0A, 0xFF0C]"
    by (simp add: example_state_def example_disk_def abs_path_def example_resolve_def)
  have aw: "abs_path example_resolve False ''a.md'' \<notin> readonly (disk example_state)"
    by (simp add: example_state_def example_disk_def)
  have b: "contents (disk example_state) (abs_path example_resolve False ''b.md'') = Some [0x62]"
    by (simp add: example_state_def example_disk_def abs_path_def example_resolve_def)
  have bw: "abs_path example_resolve False ''b.md'' \<notin> readonly (disk example_state)"
    by (simp add: example_state_def example_disk_def)
  have ta: "\<exists>(k, v) \<in> set PUNCTUATION_MAP. test k [0x61, 0x0A, 0xFF0C]"
    by (simp add: PUNCTUATION_MAP_def)
  have tb: "\<not> (\<exists>(k, v) \<in> set PUNCTUATION_MAP. test k [0x62])"
    by (simp add: PUNCTUATION_MAP_def)
  have fa: "fixPunctuation [0x61, 0x0A, 0xFF0C] = [0x61, 0x0A, 0x2C]"
    by (simp add: fixPunctuation_def PUNCTUATION_MAP_def)
  have d: "disk example_state = example_disk" by (simp add: example_state_def)
  from file_rewritten_iff_matched [OF a aw, THEN conjunct1] obtain sa where
    sa: "iteration example_resolve fixPunctuation True False example_state ''a.md'' = Inr sa"
    and da: "disk sa =
      (if \<exists>(k, v) \<in> set PUNCTUATION_MAP. test k [0x61, 0x0A, 0xFF0C]
       then (disk example_state)\<lparr>contents := (contents (disk example_state))
              (abs_path example_resolve False ''a.md'' \<mapsto> fixPunctuation [0x61, 0x0A, 0xFF0C])\<rparr>
       else disk example_state)"
    by blast
  from da ta have "disk sa = (disk example_state)\<lparr>contents := (contents (disk example_state))
              (abs_path example_resolve False ''a.md'' \<mapsto> fixPunctuation [0x61, 0x0A, 0xFF0C])\<rparr>"
    by (simp only: if_True)
  with fa have "contents (disk sa) ''/docs/a.md'' = Some [0x61, 0x0A, 0x2C]
       \<and> contents (disk sa) ''/docs/b.md'' = Some [0x62]"
    by (simp add: example_state_def example_disk_def abs_path_def example_resolve_def)
  with sa
  have 1: "\<exists>st'. iteration example_resolve fixPunctuation True False example_state ''a.md'' = Inr st'
       \<and> contents (disk st') ''/docs/a.md'' = Some [0x61, 0x0A, 0x2C]
       \<and> contents (disk st') ''/docs/b.md'' = Some [0x62]"
    by blast
  from file_rewritten_iff_matched [OF b bw, THEN conjunct1] obtain sb where
    sb: "iteration example_resolve fixPunctuation True False example_state ''b.md'' = Inr sb"
    and db: "disk sb =
      (if \<exists>(k, v) \<in> set PUNCTUATION_MAP. test k [0x62]
       then (disk example_state)\<lparr>contents := (contents (disk example_state))
              (abs_path example_resolve False ''b.md'' \<mapsto> fixPunctuation [0x62])\<rparr>
       else disk example_state)"
    by blast
  from db tb d have "disk sb = example_disk"
    by (simp only: if_False)
  with sb
  have 2: "\<exists>st'. iteration example_resolve fixPunctuation True False example_state ''b.md'' = Inr st'
       \<and> disk st' = example_disk"
    by blast
  from file_rewritten_iff_matched [OF a aw, THEN conjunct2, THEN conjunct2, THEN conjunct1] d
  have 3: "\<exists>st'. iteration example_resolve fixPunctuation False False example_state ''a.md'' = Inr st'
       \<and> disk st' = example_disk"
    by simp
  show ?thesis by (rule conjI [OF 1 conjI [OF 2 3]])
qed

lemma iterateFiles_detect_counts:
  "errFileCount (final_state (iterateFiles r d paths proc False a))
     \<le> errCount (final_state (iterateFiles r d paths proc False a))
   \<and> (errFlag (final_state (iterateFiles r d paths proc False a))
        \<longleftrightarrow> 0 < errCount (final_state (iterateFiles r d paths proc False a)))"
proof -
  let ?st0 = "\<lparr>disk = d, fixedFileCount = 0, errFlag = False, errFileCount = 0,
                 errCount = 0, console = [LintingHeader False]\<rparr>"
  have i: "errFileCount ?st0 \<le> errCount ?st0" "errFlag ?st0 \<longleftrightarrow> 0 < errCount ?st0" by simp_all
  show ?thesis
  proof (cases "for_paths r proc False a ?st0 paths")
    case (Inl x)
    obtain e st' where x: "x = (e, st')" by (cases x)
    with Inl have "for_paths r proc False a ?st0 paths = Inr st'
                   \<or> for_paths r proc False a ?st0 paths = Inl (e, st')" by simp
    from for_paths_detect_counts [OF this i] Inl x show ?thesis
      by (simp add: iterateFiles_def final_state_def)
  next
    case (Inr st')
    then have "for_paths r proc False a ?st0 paths = Inr st'
                   \<or> for_paths r proc False a ?st0 paths = Inl (undefined, st')" by simp
    from for_paths_detect_counts [OF this i] Inr show ?thesis
      by (simp add: iterateFiles_def final_state_def Let_def)
  qed
qed

lemma iterateFiles_detect_completion:
  assumes "iterateFiles r d paths proc False a = Inr (c, st)"
  shows "c = (if errFlag st then Exited 1 else Returned)"
  using assms
  by (auto simp: iterateFiles_def Let_def split: sum.splits if_splits)

text \<open>
  C10. The checker pattern tests true on a content exactly when at least one coordinate is
  found in it. So after a run in detection mode the number of errors is at least the
  number of files with errors (also when the run ended with an exception), and a run that
  ends without an exception calls \<open>exit(1)\<close> exactly when the number of errors is positive.
\<close>

theorem detection_counts:
  assumes "iterateFiles r d paths fixPunctuation False absolute = Inr (c, st)"
  shows "errFileCount st \<le> errCount st
       \<and> (c = Exited 1 \<longleftrightarrow> 0 < errCount st)
       \<and> (c = Returned \<longleftrightarrow> errCount st = 0)
       \<and> (exit_status (Inr (c, st)) \<noteq> 0 \<longleftrightarrow> 0 < errCount st)
       \<and> (test CHECKER_PATTERN content \<longleftrightarrow> coordinatesOfChars CHECKER_PATTERN content \<noteq> [])
       \<and> errFileCount (final_state (iterateFiles r' d' paths' fixPunctuation False absolute'))
           \<le> errCount (final_state (iterateFiles r' d' paths' fixPunctuation False absolute'))"
proof -
  from assms iterateFiles_detect_counts [of r d paths fixPunctuation absolute]
  have 1: "errFileCount st \<le> errCount st" and 2: "errFlag st \<longleftrightarrow> 0 < errCount st"
    by (simp_all add: final_state_def)
  from iterateFiles_detect_completion [OF assms] 2
  have 3: "c = Exited 1 \<longleftrightarrow> 0 < errCount st" and 4: "c = Returned \<longleftrightarrow> errCount st = 0"
    and 5: "exit_status (Inr (c, st)) \<noteq> 0 \<longleftrightarrow> 0 < errCount st"
    by (auto simp: exit_status_def)
  from 1 3 4 5 test_iff_coordinates [of CHECKER_PATTERN content]
    iterateFiles_detect_counts [of r' d' paths' fixPunctuation absolute']
  show ?thesis by blast
qed

theorem detection_counts_witness:
  "\<exists>st. iterateFiles example_resolve example_disk [''a.md'', ''b.md''] fixPunctuation False False
          = Inr (Exited 1, st)
      \<and> errFileCount st = 1 \<and> errCount st = 1 \<and> errFileCount st \<le> errCount st
      \<and> exit_status (Inr (Exited 1, st)) \<noteq> 0"
proof -
  have "\<exists>st. iterateFiles example_resolve example_disk [''a.md'', ''b.md''] fixPunctuation False False
          = Inr (Exited 1, st) \<and> errFileCount st = 1 \<and> errCount st = 1"
    by (simp add: iterateFiles_def iteration_def readFileSync_def example_disk_def
        example_resolve_def CHECKER_PATTERN_eq coordinatesOfChars_def matchAll_def Let_def)
  then obtain st where
    r: "iterateFiles example_resolve example_disk [''a.md'', ''b.md''] fixPunctuation False False
          = Inr (Exited 1, st)" and n: "errFileCount st = 1" "errCount st = 1"
    by blast
  from detection_counts [OF r] r n show ?thesis by blast
qed

end
